theory Spec2Isabelle
  imports Complex_Main "HOL-Library.Word"
begin

section \<open>Long-screenshot splitting (\<open>split_long_image.py\<close>)\<close>

subsection \<open>Configuration: the module's four constants\<close>

text \<open>
  The functions of the module read four module-level variables. They are passed here as a
  record; \<open>default_config\<close> holds the values written in the source.
\<close>

record config =
  max_height :: int
  split_height :: int
  search_range :: int
  overlap :: int

definition MAX_HEIGHT :: int where "MAX_HEIGHT = 3200"
definition SPLIT_HEIGHT :: int where "SPLIT_HEIGHT = 3000"
definition SEARCH_RANGE :: int where "SEARCH_RANGE = 100"
definition OVERLAP :: int where "OVERLAP = 50"

definition default_config :: config where
  "default_config =
     \<lparr>max_height = MAX_HEIGHT, split_height = SPLIT_HEIGHT,
      search_range = SEARCH_RANGE, overlap = OVERLAP\<rparr>"

subsection \<open>Images\<close>

text \<open>
  A decoded image with 8-bit samples. \<open>np.array\<close> of a single-band image (mode \<open>L\<close>) is a
  two-dimensional \<open>uint8\<close> array, row by row; of an image with several bands (\<open>LA\<close>,
  \<open>RGB\<close>, \<open>RGBA\<close>) it is three-dimensional, each pixel the list of its band values.
  The number of rows of the buffer is the height.
\<close>

type_synonym u8 = "8 word"

datatype pixels = L "u8 list list" | Bands nat "u8 list list list"

record image =
  width :: nat
  pixels :: pixels

definition height :: "image \<Rightarrow> nat" where
  "height img = (case pixels img of L rows \<Rightarrow> length rows | Bands c rows \<Rightarrow> length rows)"

text \<open>
  \<open>img.crop((0, y, img.width, y + 1))\<close> followed by \<open>np.array\<close> and, later, \<open>[0]\<close>: the one
  row at \<open>y\<close>. A crop box outside the image is filled with zero samples.
\<close>

datatype row = Row2 "u8 list" | Row3 "u8 list list"

definition crop_row :: "image \<Rightarrow> int \<Rightarrow> row" where
  "crop_row img y =
     (case pixels img of
        L rows \<Rightarrow>
          Row2 (if 0 \<le> y \<and> y < int (length rows) then rows ! nat y
                else replicate (width img) 0)
      | Bands c rows \<Rightarrow>
          Row3 (if 0 \<le> y \<and> y < int (length rows) then rows ! nat y
                else replicate (width img) (replicate c 0)))"

subsection \<open>Edge strength of a row\<close>

text \<open>
  \<open>np.diff\<close>: \<open>a[1:] - a[:-1]\<close>, in the element type of the array. On a \<open>uint8\<close> array the
  subtraction is that of \<open>uint8\<close>, which wraps around; \<open>np.abs\<close> of an unsigned array is
  the array itself.
\<close>

fun np_diff :: "'a::minus list \<Rightarrow> 'a list" where
  "np_diff (a # b # xs) = (b - a) # np_diff (b # xs)"
| "np_diff xs = []"

text \<open>
  Double precision. A \<open>float64\<close> value is modelled by the rational number it denotes, and
  an operation by the exact result rounded to the nearest double, ties to the even
  significand (53 bits, exponents from \<open>-1022\<close>). No value of this module comes near the
  largest double, so overflow is left out.
\<close>

definition pow2 :: "int \<Rightarrow> rat" where
  "pow2 k = (if 0 \<le> k then 2 ^ nat k else 1 / 2 ^ nat (- k))"

function bit_length :: "int \<Rightarrow> int" where
  "bit_length n = (if n \<le> 0 then 0 else 1 + bit_length (n div 2))"
  by pat_completeness auto
termination
  by (relation "measure nat") simp_all

declare bit_length.simps [simp del]

text \<open>The binary exponent of a non-zero rational: the \<open>e\<close> with \<open>2 ^ e \<le> |x| < 2 ^ (e + 1)\<close>.\<close>

definition exponent :: "rat \<Rightarrow> int" where
  "exponent x =
     (case quotient_of \<bar>x\<bar> of (a, b) \<Rightarrow>
        (let k = bit_length a - bit_length b
         in if pow2 k \<le> \<bar>x\<bar> then k else k - 1))"

definition round_half_even :: "rat \<Rightarrow> int" where
  "round_half_even m =
     (let f = \<lfloor>m\<rfloor>; d = m - of_int f
      in if d < 1 / 2 then f else if 1 / 2 < d then f + 1
         else if f mod 2 = 0 then f else f + 1)"

definition float64 :: "rat \<Rightarrow> rat" where
  "float64 x =
     (if x = 0 then 0
      else (let ulp = pow2 (max (exponent x) (- 1022) - 52)
            in of_int (round_half_even (x / ulp)) * ulp))"

definition fadd :: "rat \<Rightarrow> rat \<Rightarrow> rat" where
  "fadd a b = float64 (a + b)"

text \<open>
  \<open>np.mean(row_array, axis=2)\<close> of a \<open>uint8\<close> array: the band values of a pixel are added
  as doubles (small integers, so exactly) and the sum is divided by their number, one
  rounded division.
\<close>

definition np_mean :: "u8 list \<Rightarrow> rat" where
  "np_mean cs = float64 (of_nat (sum_list (map unat cs)) / of_nat (length cs))"

text \<open>
  \<open>np.sum\<close> of a \<open>float64\<close> array adds in the order of NumPy's pairwise summation: fewer
  than eight elements from left to right; up to 128 elements in eight interleaved
  accumulators that are then added in pairs, the elements left over after the last full
  group of eight added one by one; a longer array as the sum of the sums of its two
  parts, the first a multiple of eight long. Every addition rounds.
\<close>

definition lane :: "rat list \<Rightarrow> nat \<Rightarrow> nat \<Rightarrow> rat" where
  "lane a m j = foldl fadd (a ! j) (map (\<lambda>k. a ! (j + 8 * k)) [1..<m div 8])"

definition half8 :: "nat \<Rightarrow> nat" where
  "half8 n = n div 2 - (n div 2) mod 8"

function pairwise_sum :: "rat list \<Rightarrow> rat" where
  "pairwise_sum a =
     (if length a < 8 then foldl fadd 0 a
      else if length a \<le> 128 then
        (let m = length a - length a mod 8;
             res = fadd (fadd (fadd (lane a m 0) (lane a m 1)) (fadd (lane a m 2) (lane a m 3)))
                        (fadd (fadd (lane a m 4) (lane a m 5)) (fadd (lane a m 6) (lane a m 7)))
         in foldl fadd res (drop m a))
      else fadd (pairwise_sum (take (half8 (length a)) a))
                (pairwise_sum (drop (half8 (length a)) a)))"
  by pat_completeness auto
termination
proof (relation "measure length")
  show "wf (measure length)" by simp
next
  fix a :: "rat list"
  assume "\<not> length a < 8" "\<not> length a \<le> 128"
  then show "(take (half8 (length a)) a, a) \<in> measure length"
    by (simp add: half8_def)
next
  fix a :: "rat list"
  assume long: "\<not> length a < 8" "\<not> length a \<le> 128"
  then have "64 \<le> length a div 2" by linarith
  moreover have "(length a div 2) mod 8 < 8" by simp
  ultimately have "0 < half8 (length a)" unfolding half8_def by linarith
  then show "(drop (half8 (length a)) a, a) \<in> measure length"
    using long by simp
qed

declare pairwise_sum.simps [simp del]

text \<open>
  The row of an image of several bands is reduced to one double per pixel; \<open>np.diff\<close>
  subtracts doubles, \<open>np.abs\<close> is exact and \<open>np.sum\<close> adds doubles. The row of a
  single-band image stays \<open>uint8\<close>: \<open>np.sum\<close> then accumulates in a 64-bit unsigned
  integer, which a row of fewer than \<open>2 ^ 56\<close> pixels cannot overflow, so that sum is
  that of the natural numbers.
\<close>

definition compute_edge_strength :: "image \<Rightarrow> int \<Rightarrow> rat" where
  "compute_edge_strength img y =
     (case crop_row img y of
        Row3 row_array \<Rightarrow>
          (let row_pixels = map np_mean row_array;
               diff = map abs (map float64 (np_diff row_pixels))
           in pairwise_sum diff)
      | Row2 row_pixels \<Rightarrow>
          (let diff = np_diff row_pixels
           in of_nat (sum_list (map unat diff))))"

subsection \<open>The safest row near a target\<close>

text \<open>
  \<open>min_edge\<close> starts as \<open>float("inf")\<close>, here \<open>None\<close>: every edge strength is below it.
\<close>

fun below :: "rat \<Rightarrow> rat option \<Rightarrow> bool" where
  "below e None = True"
| "below e (Some m) = (e < m)"

text \<open>The body of the loop \<open>for y in range(start_y, end_y)\<close>, over the rows still to visit.\<close>

fun scan_rows :: "image \<Rightarrow> int list \<Rightarrow> rat option \<times> int \<Rightarrow> rat option \<times> int" where
  "scan_rows img [] (min_edge, best_y) = (min_edge, best_y)"
| "scan_rows img (y # ys) (min_edge, best_y) =
     (let edge_strength = compute_edge_strength img y
      in if below edge_strength min_edge
         then scan_rows img ys (Some edge_strength, y)
         else scan_rows img ys (min_edge, best_y))"

definition find_safe_split_point :: "image \<Rightarrow> int \<Rightarrow> int \<Rightarrow> int" where
  "find_safe_split_point img target_y search_rng =
     (let start_y = max 0 (target_y - search_rng);
          end_y = min (int (height img)) (target_y + search_rng)
      in snd (scan_rows img [start_y..end_y - 1] (None, target_y)))"

subsection \<open>Errors\<close>

text \<open>
  The module raises nothing itself; the exceptions that end a run come from the calls it
  makes: \<open>Image.open\<close> on a missing or unidentifiable file, the decoding of the pixel data
  (which Pillow postpones to the first \<open>crop\<close>), the division by \<open>SPLIT_HEIGHT\<close>, \<open>mkdir\<close>,
  \<open>crop\<close> with a lower edge above the upper one, and \<open>save\<close>.
\<close>

datatype error = OpenError | DecodeError | ZeroDivisionError | MkdirError | CropError | SaveError

subsection \<open>Target rows, boundaries and segment ranges\<close>

text \<open>
  \<open>ceil(height / SPLIT_HEIGHT)\<close>: true division, then the ceiling. The quotient of two
  integers below \<open>2 ^ 53\<close> is rounded correctly, and an image is far too low for the
  rounding to reach an integer: the model takes the ceiling of the exact quotient.
\<close>

definition n_splits :: "config \<Rightarrow> nat \<Rightarrow> error + int" where
  "n_splits cfg h =
     (if split_height cfg = 0 then Inl ZeroDivisionError
      else Inr \<lceil>rat_of_nat h / rat_of_int (split_height cfg)\<rceil>)"

definition target_split_points :: "config \<Rightarrow> int \<Rightarrow> int list" where
  "target_split_points cfg n = map (\<lambda>i. split_height cfg * i) [1..n - 1]"

definition actual_split_points :: "config \<Rightarrow> image \<Rightarrow> int list \<Rightarrow> int list" where
  "actual_split_points cfg img targets =
     map (\<lambda>target_y. find_safe_split_point img target_y (search_range cfg)) targets"

definition boundaries_of :: "int list \<Rightarrow> nat \<Rightarrow> int list" where
  "boundaries_of actual h = [0] @ actual @ [int h]"

text \<open>The crop range computed by iteration \<open>i\<close> of the last loop.\<close>

definition segment_range :: "int list \<Rightarrow> int \<Rightarrow> int \<Rightarrow> nat \<Rightarrow> int \<times> int" where
  "segment_range boundaries h ov i =
     (if i = 0 then (0, min (boundaries ! (i + 1) + ov) h)
      else if i = length boundaries - 2 then (max (boundaries ! i - ov) 0, h)
      else (max (boundaries ! i - ov) 0, min (boundaries ! (i + 1) + ov) h))"

definition segment_ranges :: "int list \<Rightarrow> int \<Rightarrow> int \<Rightarrow> (int \<times> int) list" where
  "segment_ranges boundaries h ov =
     map (segment_range boundaries h ov) [0..<length boundaries - 1]"

text \<open>
  The actual split points of a decoded image, when \<open>split_height\<close> is not zero.
\<close>

definition actual_of :: "config \<Rightarrow> image \<Rightarrow> int list" where
  "actual_of cfg img = actual_split_points cfg img
     (target_split_points cfg \<lceil>rat_of_nat (height img) / rat_of_int (split_height cfg)\<rceil>)"

subsection \<open>Cropping\<close>

definition row_at :: "'a list \<Rightarrow> 'a \<Rightarrow> int \<Rightarrow> 'a" where
  "row_at rows pad y = (if 0 \<le> y \<and> y < int (length rows) then rows ! nat y else pad)"

text \<open>
  \<open>img.crop((0, y_start, width, y_end))\<close>: the rows from \<open>y_start\<close> up to \<open>y_end\<close>, over
  the full width; \<open>ValueError\<close> when \<open>y_end < y_start\<close>.
\<close>

definition crop_box :: "image \<Rightarrow> int \<Rightarrow> int \<Rightarrow> image" where
  "crop_box img y_start y_end =
     img\<lparr>pixels :=
        (case pixels img of
           L rows \<Rightarrow> L (map (row_at rows (replicate (width img) 0)) [y_start..y_end - 1])
         | Bands c rows \<Rightarrow>
             Bands c (map (row_at rows (replicate (width img) (replicate c 0)))
                        [y_start..y_end - 1]))\<rparr>"

definition crop :: "image \<Rightarrow> int \<Rightarrow> int \<Rightarrow> error + image" where
  "crop img y_start y_end =
     (if y_end < y_start then Inl CropError else Inr (crop_box img y_start y_end))"

subsection \<open>The run: files, output and the trace of effects\<close>

text \<open>
  \<open>Image.open\<close> reads the header only. A file is either decodable, or has a readable
  header (width and height) and pixel data that fail to decode at the first access.
\<close>

datatype image_file = Decodable image | Truncated nat nat

fun file_size :: "image_file \<Rightarrow> nat \<times> nat" where
  "file_size (Decodable img) = (width img, height img)"
| "file_size (Truncated w h) = (w, h)"

text \<open>
  \<open>find_safe_split_point\<close> on an opened file: the first \<open>compute_edge_strength\<close> decodes
  the pixel data; an empty window reads no pixel.
\<close>

fun find_safe_split_point_file :: "image_file \<Rightarrow> int \<Rightarrow> int \<Rightarrow> error + int" where
  "find_safe_split_point_file (Decodable img) target_y search_rng =
     Inr (find_safe_split_point img target_y search_rng)"
| "find_safe_split_point_file (Truncated w h) target_y search_rng =
     (if max 0 (target_y - search_rng) < min (int h) (target_y + search_rng)
      then Inl DecodeError else Inr target_y)"

fun crop_file :: "image_file \<Rightarrow> int \<Rightarrow> int \<Rightarrow> error + image" where
  "crop_file (Decodable img) y_start y_end = crop img y_start y_end"
| "crop_file (Truncated w h) y_start y_end =
     (if y_end < y_start then Inl CropError else Inl DecodeError)"

text \<open>A \<open>pathlib.Path\<close>: its string, and the stem and suffix of its last component.\<close>

record path =
  path_str :: string
  stem :: string
  suffix :: string

text \<open>The format \<open>{n:02d}\<close> of a natural number.\<close>

fun decimal :: "nat \<Rightarrow> string" where
  "decimal n =
     (if n < 10 then [char_of (48 + n)] else decimal (n div 10) @ [char_of (48 + n mod 10)])"

definition fmt02d :: "nat \<Rightarrow> string" where
  "fmt02d n = (if n < 10 then CHR ''0'' # decimal n else decimal n)"

definition part_filename :: "path \<Rightarrow> nat \<Rightarrow> string" where
  "part_filename p i = stem p @ ''_part'' @ fmt02d (i + 1) @ suffix p"

text \<open>The lines printed, and the effects of a run in the order they happen.\<close>

datatype msg =
    Loading string
  | ImageSize nat nat
  | NoNeedToSplit nat int
  | TooLong int
  | FindingSplitPoints
  | SplitPoint nat int int int
  | SplittingAndSaving string
  | Part nat int int int string
  | Done nat

datatype event = Print msg | Mkdir string | Save string image nat

text \<open>
  What the run finds outside: the files it can open, and whether a directory can be made
  and an image saved.
\<close>

record env =
  open_file :: "string \<Rightarrow> image_file option"
  mkdir_ok :: "string \<Rightarrow> bool"
  save_ok :: "string \<Rightarrow> image \<Rightarrow> bool"

text \<open>
  The loop over \<open>enumerate(target_split_points, 1)\<close>. An exception ends it; the lines
  printed so far stay printed.
\<close>

fun find_loop :: "image_file \<Rightarrow> int \<Rightarrow> nat \<Rightarrow> int list \<Rightarrow> event list \<times> (error + int list)" where
  "find_loop f r i [] = ([], Inr [])"
| "find_loop f r i (target_y # ts) =
     (case find_safe_split_point_file f target_y r of
        Inl e \<Rightarrow> ([], Inl e)
      | Inr safe_y \<Rightarrow>
          (case find_loop f r (Suc i) ts of
             (tr, Inl e) \<Rightarrow> (Print (SplitPoint i target_y safe_y (safe_y - target_y)) # tr, Inl e)
           | (tr, Inr rest) \<Rightarrow>
               (Print (SplitPoint i target_y safe_y (safe_y - target_y)) # tr,
                Inr (safe_y # rest))))"

text \<open>The loop \<open>for i in range(len(boundaries) - 1)\<close>: crop, save, print.\<close>

fun save_loop ::
  "env \<Rightarrow> image_file \<Rightarrow> path \<Rightarrow> string \<Rightarrow> int list \<Rightarrow> int \<Rightarrow> int \<Rightarrow> nat list \<Rightarrow> event list \<times> error option"
where
  "save_loop en f p out bs h ov [] = ([], None)"
| "save_loop en f p out bs h ov (i # is) =
     (case segment_range bs h ov i of (y_start, y_end) \<Rightarrow>
        (case crop_file f y_start y_end of
           Inl e \<Rightarrow> ([], Some e)
         | Inr part \<Rightarrow>
             (let part_path = out @ ''/'' @ part_filename p i
              in if \<not> save_ok en part_path part then ([], Some SaveError)
                 else (case save_loop en f p out bs h ov is of (tr, r) \<Rightarrow>
                   (Save part_path part 95
                      # Print (Part (i + 1) y_start y_end (y_end - y_start) (part_filename p i))
                      # tr, r)))))"

text \<open>
  \<open>split_long_image\<close>: the trace of its effects, and the exception that ended it if one
  did. The function itself returns \<open>None\<close> on both of its ways out.
\<close>

definition split_long_image ::
  "config \<Rightarrow> env \<Rightarrow> path \<Rightarrow> string \<Rightarrow> event list \<times> error option"
where
  "split_long_image cfg en input_path output_dir =
     (case open_file en (path_str input_path) of
        None \<Rightarrow> ([Print (Loading (path_str input_path))], Some OpenError)
      | Some f \<Rightarrow>
          (case file_size f of (w, h) \<Rightarrow>
             (let opened = [Print (Loading (path_str input_path)), Print (ImageSize w h)]
              in if int h \<le> max_height cfg
                 then (opened @ [Print (NoNeedToSplit h (max_height cfg))], None)
                 else (case n_splits cfg h of
                     Inl e \<Rightarrow> (opened, Some e)
                   | Inr n \<Rightarrow>
                       (let started = opened @ [Print (TooLong n), Print FindingSplitPoints]
                        in case find_loop f (search_range cfg) 1 (target_split_points cfg n) of
                             (tr, Inl e) \<Rightarrow> (started @ tr, Some e)
                           | (tr, Inr actual) \<Rightarrow>
                               if \<not> mkdir_ok en output_dir
                               then (started @ tr, Some MkdirError)
                               else
                                 (let bs = boundaries_of actual h;
                                      made = started @ tr
                                        @ [Mkdir output_dir, Print (SplittingAndSaving output_dir)]
                                  in case save_loop en f input_path output_dir bs (int h)
                                            (overlap cfg) [0..<length bs - 1] of
                                       (tr2, Some e) \<Rightarrow> (made @ tr2, Some e)
                                     | (tr2, None) \<Rightarrow>
                                         (made @ tr2 @ [Print (Done (length bs - 1))],
                                          None)))))))"

subsection \<open>Reading a trace\<close>

text \<open>The images saved, the crop ranges reported and the split points reported, in order.\<close>

fun saved_parts :: "event list \<Rightarrow> image list" where
  "saved_parts [] = []"
| "saved_parts (Save p part q # tr) = part # saved_parts tr"
| "saved_parts (e # tr) = saved_parts tr"

fun part_ranges :: "event list \<Rightarrow> (int \<times> int) list" where
  "part_ranges [] = []"
| "part_ranges (Print (Part i y_start y_end part_height name) # tr) =
     (y_start, y_end) # part_ranges tr"
| "part_ranges (e # tr) = part_ranges tr"

fun split_points :: "event list \<Rightarrow> (int \<times> int) list" where
  "split_points [] = []"
| "split_points (Print (SplitPoint i target_y safe_y offset) # tr) =
     (target_y, safe_y) # split_points tr"
| "split_points (e # tr) = split_points tr"

fun is_output :: "event \<Rightarrow> bool" where
  "is_output (Print m) = False"
| "is_output (Mkdir d) = True"
| "is_output (Save p part q) = True"

text \<open>The events of one successful iteration of each loop.\<close>

definition split_point_line :: "image \<Rightarrow> int \<Rightarrow> nat \<Rightarrow> int \<Rightarrow> event" where
  "split_point_line img r i target_y =
     Print (SplitPoint i target_y (find_safe_split_point img target_y r)
              (find_safe_split_point img target_y r - target_y))"

definition part_events :: "image \<Rightarrow> path \<Rightarrow> string \<Rightarrow> int list \<Rightarrow> int \<Rightarrow> int \<Rightarrow> nat \<Rightarrow> event list" where
  "part_events img p out bs h ov i =
     (case segment_range bs h ov i of (y_start, y_end) \<Rightarrow>
        [Save (out @ ''/'' @ part_filename p i) (crop_box img y_start y_end) 95,
         Print (Part (i + 1) y_start y_end (y_end - y_start) (part_filename p i))])"

text \<open>The trace of a run that meets no exception.\<close>

definition run_trace :: "config \<Rightarrow> image \<Rightarrow> path \<Rightarrow> string \<Rightarrow> event list" where
  "run_trace cfg img p out =
     (let h = height img;
          n = \<lceil>rat_of_nat h / rat_of_int (split_height cfg)\<rceil>;
          targets = target_split_points cfg n;
          bs = boundaries_of (actual_of cfg img) h
      in [Print (Loading (path_str p)), Print (ImageSize (width img) h),
          Print (TooLong n), Print FindingSplitPoints]
         @ map2 (split_point_line img (search_range cfg)) [1..<1 + length targets] targets
         @ [Mkdir out, Print (SplittingAndSaving out)]
         @ concat (map (part_events img p out bs (int h) (overlap cfg)) [0..<length bs - 1])
         @ [Print (Done (length bs - 1))])"

subsection \<open>Edge strength as the specification words it\<close>

text \<open>
  The luminance of a pixel is its sample when there is one band, the mean of its band
  values otherwise; the edge strength of a row is the sum of the absolute differences of
  the luminances of horizontally adjacent pixels.
\<close>

definition luminances :: "image \<Rightarrow> int \<Rightarrow> rat list" where
  "luminances img y =
     (case crop_row img y of
        Row2 samples \<Rightarrow> map (\<lambda>v. of_nat (unat v)) samples
      | Row3 pxs \<Rightarrow>
          map (\<lambda>cs. of_nat (sum_list (map unat cs)) / of_nat (length cs)) pxs)"

definition edge_strength_spec :: "image \<Rightarrow> int \<Rightarrow> rat" where
  "edge_strength_spec img y =
     (let ls = luminances img y in sum_list (map2 (\<lambda>a b. \<bar>b - a\<bar>) ls (tl ls)))"

subsection \<open>Concrete images\<close>

definition three_rows :: image where
  "three_rows = \<lparr>width = 2, pixels = L [[0, 9], [5, 5], [7, 7]]\<rparr>"

definition gray_pair :: image where
  "gray_pair = \<lparr>width = 2, pixels = L [[10, 5]]\<rparr>"

definition gray_rows :: image where
  "gray_rows = \<lparr>width = 2, pixels = L [[10, 5], [0, 6]]\<rparr>"

definition rgb_rows :: image where
  "rgb_rows =
     \<lparr>width = 2, pixels = Bands 3 [[[1, 0, 0], [1, 1, 1]], [[0, 0, 0], [2, 0, 0]]]\<rparr>"

subsection \<open>A tall image and its surroundings\<close>

definition tall_image :: image where
  "tall_image = \<lparr>width = 1, pixels = L (replicate 3600 [0])\<rparr>"

definition shot_path :: path where
  "shot_path = \<lparr>path_str = ''shot.png'', stem = ''shot'', suffix = ''.png''\<rparr>"

definition tall_env :: env where
  "tall_env =
     \<lparr>open_file = (\<lambda>s. if s = ''shot.png'' then Some (Decodable tall_image) else None),
      mkdir_ok = (\<lambda>d. True), save_ok = (\<lambda>q part. True)\<rparr>"

definition short_env :: env where
  "short_env =
     \<lparr>open_file = (\<lambda>s. if s = ''shot.png'' then Some (Decodable three_rows) else None),
      mkdir_ok = (\<lambda>d. True), save_ok = (\<lambda>q part. True)\<rparr>"

section \<open>Properties\<close>

subsection \<open>The scan of a window\<close>

lemma scan_rows_fst_Some:
  "\<exists>m'. fst (scan_rows img ys (Some m, b)) = Some m'"
  by (induction ys arbitrary: m b) (auto simp: Let_def)

text \<open>
  From a state that holds a minimum, the scan either keeps it, or ends on the first row
  of the list that is strictly below everything before it and at most everything after.
\<close>

lemma scan_rows_Some:
  "scan_rows img ys (Some m, b) = (Some m', b') \<Longrightarrow>
     m' \<le> m \<and> (\<forall>y\<in>set ys. m' \<le> compute_edge_strength img y) \<and>
     ((m' = m \<and> b' = b) \<or>
      (m' < m \<and> compute_edge_strength img b' = m' \<and>
       (\<exists>pre post. ys = pre @ b' # post \<and>
          (\<forall>y\<in>set pre. m' < compute_edge_strength img y))))"
proof (induction ys arbitrary: m b)
  case Nil
  then show ?case by simp
next
  case (Cons y ys)
  let ?e = "compute_edge_strength img y"
  show ?case
  proof (cases "?e < m")
    case True
    with Cons.prems have run: "scan_rows img ys (Some ?e, y) = (Some m', b')"
      by (simp add: Let_def)
    from Cons.IH [OF run] have le: "m' \<le> ?e"
      and all: "\<forall>z\<in>set ys. m' \<le> compute_edge_strength img z"
      and alt: "(m' = ?e \<and> b' = y) \<or>
        (m' < ?e \<and> compute_edge_strength img b' = m' \<and>
         (\<exists>pre post. ys = pre @ b' # post \<and>
            (\<forall>z\<in>set pre. m' < compute_edge_strength img z)))"
      by blast+
    from alt show ?thesis
    proof
      assume "m' = ?e \<and> b' = y"
      then have "y # ys = [] @ b' # ys" and "compute_edge_strength img b' = m'"
        by simp_all
      with True le all \<open>m' = ?e \<and> b' = y\<close> show ?thesis
        by (metis empty_iff empty_set order_less_imp_le set_ConsD)
    next
      assume a: "m' < ?e \<and> compute_edge_strength img b' = m' \<and>
         (\<exists>pre post. ys = pre @ b' # post \<and>
            (\<forall>z\<in>set pre. m' < compute_edge_strength img z))"
      then obtain pre post where ys: "ys = pre @ b' # post"
        and pre: "\<forall>z\<in>set pre. m' < compute_edge_strength img z"
        by blast
      have "y # ys = (y # pre) @ b' # post" using ys by simp
      moreover have "\<forall>z\<in>set (y # pre). m' < compute_edge_strength img z"
        using pre a by simp
      ultimately have "\<exists>pre post. y # ys = pre @ b' # post \<and>
            (\<forall>z\<in>set pre. m' < compute_edge_strength img z)"
        by blast
      with a True le all show ?thesis by auto
    qed
  next
    case False
    with Cons.prems have run: "scan_rows img ys (Some m, b) = (Some m', b')"
      by (simp add: Let_def)
    from Cons.IH [OF run] have le: "m' \<le> m"
      and all: "\<forall>z\<in>set ys. m' \<le> compute_edge_strength img z"
      and alt: "(m' = m \<and> b' = b) \<or>
        (m' < m \<and> compute_edge_strength img b' = m' \<and>
         (\<exists>pre post. ys = pre @ b' # post \<and>
            (\<forall>z\<in>set pre. m' < compute_edge_strength img z)))"
      by blast+
    from alt show ?thesis
    proof
      assume "m' = m \<and> b' = b"
      with False le all show ?thesis by auto
    next
      assume a: "m' < m \<and> compute_edge_strength img b' = m' \<and>
         (\<exists>pre post. ys = pre @ b' # post \<and>
            (\<forall>z\<in>set pre. m' < compute_edge_strength img z))"
      then obtain pre post where ys: "ys = pre @ b' # post"
        and pre: "\<forall>z\<in>set pre. m' < compute_edge_strength img z"
        by blast
      have "y # ys = (y # pre) @ b' # post" using ys by simp
      moreover have "\<forall>z\<in>set (y # pre). m' < compute_edge_strength img z"
        using pre a False by auto
      ultimately have "\<exists>pre post. y # ys = pre @ b' # post \<and>
            (\<forall>z\<in>set pre. m' < compute_edge_strength img z)"
        by blast
      with a False le all show ?thesis by auto
    qed
  qed
qed

text \<open>Started on a non-empty list of rows, the scan returns the first row of least edge strength.\<close>

lemma scan_rows_first_min:
  assumes "ys \<noteq> []"
  shows "\<exists>pre post. ys = pre @ snd (scan_rows img ys (None, t)) # post \<and>
     (\<forall>y\<in>set pre. compute_edge_strength img (snd (scan_rows img ys (None, t)))
          < compute_edge_strength img y) \<and>
     (\<forall>y\<in>set ys. compute_edge_strength img (snd (scan_rows img ys (None, t)))
          \<le> compute_edge_strength img y)"
proof -
  from assms obtain y rest where ys: "ys = y # rest" by (cases ys) auto
  let ?e = "compute_edge_strength img y"
  have step: "scan_rows img ys (None, t) = scan_rows img rest (Some ?e, y)"
    by (simp add: ys Let_def)
  obtain m' where "fst (scan_rows img rest (Some ?e, y)) = Some m'"
    using scan_rows_fst_Some by blast
  then obtain b' where run: "scan_rows img rest (Some ?e, y) = (Some m', b')"
    by (cases "scan_rows img rest (Some ?e, y)") auto
  from scan_rows_Some [OF run] have le: "m' \<le> ?e"
    and all: "\<forall>z\<in>set rest. m' \<le> compute_edge_strength img z"
    and alt: "(m' = ?e \<and> b' = y) \<or>
        (m' < ?e \<and> compute_edge_strength img b' = m' \<and>
         (\<exists>pre post. rest = pre @ b' # post \<and>
            (\<forall>z\<in>set pre. m' < compute_edge_strength img z)))"
    by blast+
  have res: "snd (scan_rows img ys (None, t)) = b'" by (simp add: step run)
  from alt show ?thesis
  proof
    assume a: "m' = ?e \<and> b' = y"
    then have "ys = [] @ b' # rest" by (simp add: ys)
    moreover have "\<forall>z\<in>set ys. compute_edge_strength img b' \<le> compute_edge_strength img z"
      using a all by (auto simp: ys)
    ultimately show ?thesis unfolding res by (metis empty_iff empty_set)
  next
    assume a: "m' < ?e \<and> compute_edge_strength img b' = m' \<and>
         (\<exists>pre post. rest = pre @ b' # post \<and>
            (\<forall>z\<in>set pre. m' < compute_edge_strength img z))"
    then obtain pre post where r: "rest = pre @ b' # post"
      and pre: "\<forall>z\<in>set pre. m' < compute_edge_strength img z"
      by blast
    have "ys = (y # pre) @ b' # post" using r by (simp add: ys)
    moreover have "\<forall>z\<in>set (y # pre). compute_edge_strength img b' < compute_edge_strength img z"
      using pre a by simp
    moreover have "\<forall>z\<in>set ys. compute_edge_strength img b' \<le> compute_edge_strength img z"
      using a all le by (auto simp: ys)
    ultimately show ?thesis unfolding res by blast
  qed
qed

lemma upto_split_before:
  assumes "[lo..hi] = pre @ b # post" and "y \<in> set [lo..hi]" and "y < b"
  shows "y \<in> set pre"
proof -
  have "sorted (pre @ b # post)" using assms(1) by (metis sorted_upto)
  then have "\<forall>z\<in>set post. b \<le> z" by (simp add: sorted_append)
  moreover have "y \<in> set pre \<or> y = b \<or> y \<in> set post" using assms(1,2) by auto
  ultimately show ?thesis using assms(3) by auto
qed

lemma find_safe_split_point_empty:
  "min (int (height img)) (t + r) \<le> max 0 (t - r) \<Longrightarrow> find_safe_split_point img t r = t"
proof -
  assume "min (int (height img)) (t + r) \<le> max 0 (t - r)"
  then have "[max 0 (t - r)..min (int (height img)) (t + r) - 1] = []" by simp
  then show ?thesis by (simp add: find_safe_split_point_def Let_def)
qed

lemma find_safe_split_point_nonempty:
  assumes ne: "max 0 (t - r) < min (int (height img)) (t + r)"
  shows "max 0 (t - r) \<le> find_safe_split_point img t r"
    and "find_safe_split_point img t r < min (int (height img)) (t + r)"
    and "\<forall>y. max 0 (t - r) \<le> y \<and> y < min (int (height img)) (t + r) \<longrightarrow>
           compute_edge_strength img (find_safe_split_point img t r)
             \<le> compute_edge_strength img y"
    and "\<forall>y. max 0 (t - r) \<le> y \<and> y < find_safe_split_point img t r \<longrightarrow>
           compute_edge_strength img (find_safe_split_point img t r)
             < compute_edge_strength img y"
proof -
  let ?lo = "max 0 (t - r)" and ?hi = "min (int (height img)) (t + r)"
  let ?ys = "[?lo..?hi - 1]" and ?b = "find_safe_split_point img t r"
  have best: "?b = snd (scan_rows img ?ys (None, t))"
    by (simp add: find_safe_split_point_def Let_def)
  from ne have "\<not> ?hi - 1 < ?lo" by linarith
  then have "?ys \<noteq> []" by (simp only: upto_Nil not_False_eq_True)
  from scan_rows_first_min [OF this, of img t]
  obtain pre post where split: "?ys = pre @ ?b # post"
    and pre: "\<forall>y\<in>set pre. compute_edge_strength img ?b < compute_edge_strength img y"
    and all: "\<forall>y\<in>set ?ys. compute_edge_strength img ?b \<le> compute_edge_strength img y"
    unfolding best by blast
  from split have mem: "?b \<in> set ?ys" by (metis in_set_conv_decomp)
  then show "?lo \<le> ?b" and "?b < ?hi" by simp_all
  show "\<forall>y. ?lo \<le> y \<and> y < ?hi \<longrightarrow>
          compute_edge_strength img ?b \<le> compute_edge_strength img y"
    using all by simp
  show "\<forall>y. ?lo \<le> y \<and> y < ?b \<longrightarrow>
          compute_edge_strength img ?b < compute_edge_strength img y"
  proof (intro allI impI)
    fix y assume y: "?lo \<le> y \<and> y < ?b"
    with mem have "y \<in> set ?ys" by simp
    from upto_split_before [OF split this] y have "y \<in> set pre" by simp
    with pre show "compute_edge_strength img ?b < compute_edge_strength img y" by simp
  qed
qed

lemma three_rows_eval:
  "height three_rows = 3"
  "compute_edge_strength three_rows 0 = 9"
  "compute_edge_strength three_rows 1 = 0"
  "compute_edge_strength three_rows 2 = 0"
  by (simp_all add: three_rows_def height_def compute_edge_strength_def crop_row_def)

text \<open>
  C1. \<open>find_safe_split_point\<close> is to return the row of the window
  \<open>[max(0, target_y - search_range), min(height, target_y + search_range))\<close> whose edge
  strength is at most that of every row of the window. On a single-band image it need
  not: for the rows \<open>10, 5\<close> and \<open>0, 6\<close>, target row 1 and search range 1, the window is
  the rows 0 and 1, whose edge strengths (sums of absolute differences) are 5 and 6, and
  the function returns row 1, because it scores row 0 with the wrapped difference 251.
\<close>

theorem find_safe_split_point_gray_not_least:
  "height gray_rows = 2
   \<and> find_safe_split_point gray_rows 1 1 = 1
   \<and> edge_strength_spec gray_rows 0 = 5 \<and> edge_strength_spec gray_rows 1 = 6
   \<and> compute_edge_strength gray_rows 0 = 251 \<and> compute_edge_strength gray_rows 1 = 6"
  by (simp add: find_safe_split_point_def height_def gray_rows_def upto.simps
      compute_edge_strength_def edge_strength_spec_def luminances_def crop_row_def)

text \<open>
  On an image of several bands the scores are doubles, and the row chosen is the one of
  least rounded score. The two rows of \<open>rgb_rows\<close> have the same sum of absolute
  differences of means, \<open>2/3\<close>; rounding makes the score of row 1 the smaller.
\<close>

lemma compute_edge_strength_rounds:
  "compute_edge_strength rgb_rows 0 = 6004799503160662 / 2 ^ 53"
  "compute_edge_strength rgb_rows 1 = 6004799503160661 / 2 ^ 53"
  "edge_strength_spec rgb_rows 0 = 2 / 3"
  "edge_strength_spec rgb_rows 1 = 2 / 3"
  "find_safe_split_point rgb_rows 1 1 = 1"
  by code_simp+

text \<open>
  C6. For a non-negative search range the row returned lies within the search range of
  the target, \<open>target_y - search_range \<le> actual_y \<le> target_y + search_range\<close>, whatever
  the image and the target, the empty window included.
\<close>

theorem find_safe_split_point_within_range:
  assumes "0 \<le> search_rng"
  shows "target_y - search_rng \<le> find_safe_split_point img target_y search_rng
       \<and> find_safe_split_point img target_y search_rng \<le> target_y + search_rng
       \<and> \<bar>find_safe_split_point img target_y search_rng - target_y\<bar> \<le> search_rng"
proof (cases "max 0 (target_y - search_rng) < min (int (height img)) (target_y + search_rng)")
  case True
  from find_safe_split_point_nonempty(1,2) [OF True] show ?thesis by linarith
next
  case False
  then have "min (int (height img)) (target_y + search_rng) \<le> max 0 (target_y - search_rng)"
    by linarith
  then have "find_safe_split_point img target_y search_rng = target_y"
    by (rule find_safe_split_point_empty)
  with assms show ?thesis by simp
qed

theorem find_safe_split_point_within_range_witness:
  "(0::int) \<le> 2
   \<and> 1 - 2 \<le> find_safe_split_point three_rows 1 2
   \<and> find_safe_split_point three_rows 1 2 \<le> 1 + 2
   \<and> \<bar>find_safe_split_point three_rows 1 2 - 1\<bar> \<le> 2"
  using find_safe_split_point_within_range [of 2 1 three_rows] by simp

text \<open>
  C2. The edge strength of a row is the sum of the absolute differences of adjacent
  luminances. On a single-band row \<open>compute_edge_strength\<close> takes the differences in
  \<open>uint8\<close>, where they wrap around, and \<open>np.abs\<close> leaves them: for the row \<open>10, 5\<close> the
  function returns \<open>251\<close>, where the sum of absolute differences is \<open>5\<close>.
\<close>

theorem compute_edge_strength_gray_wraps:
  "compute_edge_strength gray_pair 0 = 251 \<and> edge_strength_spec gray_pair 0 = 5"
  by (simp add: gray_pair_def compute_edge_strength_def edge_strength_spec_def
      luminances_def crop_row_def)

subsection \<open>The two loops of a run\<close>

lemma find_loop_decodable:
  "find_loop (Decodable img) r i ts =
     (map2 (split_point_line img r) [i..<i + length ts] ts,
      Inr (map (\<lambda>t. find_safe_split_point img t r) ts))"
proof (induction ts arbitrary: i)
  case Nil
  then show ?case by simp
next
  case (Cons t ts)
  have "[i..<i + length (t # ts)] = i # [Suc i..<Suc i + length ts]"
    using upt_conv_Cons [of i "i + length (t # ts)"] by simp
  then show ?case by (simp add: Cons.IH split_point_line_def)
qed

lemma save_loop_decodable:
  assumes "\<forall>i\<in>set js. fst (segment_range bs h ov i) \<le> snd (segment_range bs h ov i)
      \<and> save_ok en (out @ ''/'' @ part_filename p i)
           (crop_box img (fst (segment_range bs h ov i)) (snd (segment_range bs h ov i)))"
  shows "save_loop en (Decodable img) p out bs h ov js =
     (concat (map (part_events img p out bs h ov) js), None)"
  using assms
proof (induction js)
  case Nil
  then show ?case by simp
next
  case (Cons i js)
  obtain ys ye where seg: "segment_range bs h ov i = (ys, ye)" by (cases "segment_range bs h ov i")
  from Cons.prems seg have ok: "ys \<le> ye" "save_ok en (out @ ''/'' @ part_filename p i) (crop_box img ys ye)"
    by simp_all
  from Cons have IH: "save_loop en (Decodable img) p out bs h ov js =
     (concat (map (part_events img p out bs h ov) js), None)" by simp
  have hd: "part_events img p out bs h ov i =
     [Save (out @ ''/'' @ part_filename p i) (crop_box img ys ye) 95,
      Print (Part (i + 1) ys ye (ye - ys) (part_filename p i))]"
    by (simp add: part_events_def seg)
  show ?case using ok by (simp add: seg crop_def IH hd Let_def)
qed

lemma find_loop_no_output:
  "find_loop f r i ts = (tr, res) \<Longrightarrow> \<forall>e\<in>set tr. \<not> is_output e"
  by (induction ts arbitrary: i tr res) (auto split: sum.splits prod.splits)

lemma find_loop_resolved:
  "find_loop f r i ts = (tr, Inr actual) \<Longrightarrow>
     length actual = length ts \<and> map fst (split_points tr) = ts \<and> map snd (split_points tr) = actual"
  by (induction ts arbitrary: i tr actual) (auto split: sum.splits prod.splits)

subsection \<open>Segment ranges\<close>

lemma boundaries_of_length: "length (boundaries_of actual h) = length actual + 2"
  by (simp add: boundaries_of_def)

lemma boundaries_of_nth:
  "(boundaries_of actual h) ! 0 = 0"
  "(boundaries_of actual h) ! Suc (length actual) = int h"
  "i < length actual \<Longrightarrow> (boundaries_of actual h) ! Suc i = actual ! i"
  by (simp_all add: boundaries_of_def nth_append)

lemma boundaries_of_bounds:
  assumes "\<forall>a\<in>set actual. 0 \<le> a \<and> a \<le> int h" and "i < length actual + 2"
  shows "0 \<le> (boundaries_of actual h) ! i \<and> (boundaries_of actual h) ! i \<le> int h"
proof -
  have "(boundaries_of actual h) ! i \<in> set (boundaries_of actual h)"
    using assms(2) by (simp add: boundaries_of_length)
  then show ?thesis using assms(1) by (auto simp: boundaries_of_def)
qed

lemma segment_ranges_length:
  "length (segment_ranges (boundaries_of actual h) hh ov) = length actual + 1"
  by (simp add: segment_ranges_def boundaries_of_length)

lemma segment_ranges_nth:
  "i < length actual + 1 \<Longrightarrow>
     segment_ranges (boundaries_of actual h) hh ov ! i = segment_range (boundaries_of actual h) hh ov i"
  by (simp add: segment_ranges_def boundaries_of_length del: upt_Suc)

text \<open>With a non-negative overlap the three branches of the loop body compute one formula.\<close>

lemma segment_range_uniform:
  assumes "0 \<le> ov" and "i < length actual + 1"
  shows "segment_range (boundaries_of actual h) (int h) ov i =
     (max ((boundaries_of actual h) ! i - ov) 0,
      min ((boundaries_of actual h) ! (i + 1) + ov) (int h))"
proof -
  let ?bs = "boundaries_of actual h"
  have len: "length ?bs - 2 = length actual" by (simp add: boundaries_of_length)
  show ?thesis
  proof (cases "i = 0")
    case True
    with assms(1) show ?thesis by (simp add: segment_range_def boundaries_of_nth(1))
  next
    case False
    show ?thesis
    proof (cases "i = length actual")
      case True
      with False assms(1) boundaries_of_nth(2) [of actual h] show ?thesis
        by (simp add: segment_range_def len)
    next
      case False
      with \<open>i \<noteq> 0\<close> show ?thesis by (simp add: segment_range_def len)
    qed
  qed
qed

lemma chain_cover:
  fixes segs :: "(int \<times> int) list"
  assumes ne: "segs \<noteq> []"
    and first: "fst (segs ! 0) \<le> y"
    and last: "y < snd (segs ! (length segs - 1))"
    and chain: "\<forall>i. Suc i < length segs \<longrightarrow> fst (segs ! Suc i) \<le> snd (segs ! i)"
  shows "\<exists>i<length segs. fst (segs ! i) \<le> y \<and> y < snd (segs ! i)"
proof -
  define k where "k = (LEAST i. y < snd (segs ! i))"
  have ex: "y < snd (segs ! (length segs - 1))" by (rule last)
  then have yk: "y < snd (segs ! k)" unfolding k_def by (rule LeastI)
  have kle: "k \<le> length segs - 1" unfolding k_def using ex by (rule Least_le)
  with ne have klt: "k < length segs" by (cases segs) auto
  have "fst (segs ! k) \<le> y"
  proof (cases k)
    case 0
    with first show ?thesis by simp
  next
    case (Suc j)
    have "j < k" using Suc by simp
    then have "\<not> y < snd (segs ! j)" unfolding k_def by (rule not_less_Least)
    moreover have "fst (segs ! Suc j) \<le> snd (segs ! j)" using chain klt Suc by simp
    ultimately show ?thesis using Suc by simp
  qed
  with yk klt show ?thesis by blast
qed

lemma segment_ranges_facts:
  assumes ov: "0 \<le> ov" and inb: "\<forall>a\<in>set actual. 0 \<le> a \<and> a \<le> int h"
  defines "segs \<equiv> segment_ranges (boundaries_of actual h) (int h) ov"
  shows "fst (segs ! 0) = 0"
    and "snd (segs ! (length segs - 1)) = int h"
    and "\<forall>i. Suc i < length segs \<longrightarrow> fst (segs ! Suc i) \<le> snd (segs ! i)"
    and "\<forall>i<length segs. 0 \<le> fst (segs ! i) \<and> snd (segs ! i) \<le> int h"
proof -
  let ?bs = "boundaries_of actual h"
  have len: "length segs = length actual + 1" by (simp add: segs_def segment_ranges_length)
  have nth: "segs ! i = (max (?bs ! i - ov) 0, min (?bs ! (i + 1) + ov) (int h))"
    if "i < length actual + 1" for i
    using that ov by (simp add: segs_def segment_ranges_nth segment_range_uniform)
  have bnd: "0 \<le> ?bs ! i \<and> ?bs ! i \<le> int h" if "i < length actual + 2" for i
    using boundaries_of_bounds [OF inb that] .
  show "fst (segs ! 0) = 0" using nth [of 0] ov by (simp add: boundaries_of_nth(1))
  show "snd (segs ! (length segs - 1)) = int h"
    using nth [of "length actual"] ov boundaries_of_nth(2) [of actual h] by (simp add: len)
  show "\<forall>i. Suc i < length segs \<longrightarrow> fst (segs ! Suc i) \<le> snd (segs ! i)"
  proof (intro allI impI)
    fix i assume "Suc i < length segs"
    then have i: "Suc i < length actual + 1" by (simp add: len)
    from bnd [of "Suc i"] i have "0 \<le> ?bs ! Suc i \<and> ?bs ! Suc i \<le> int h" by simp
    with nth [of i] nth [of "Suc i"] i ov show "fst (segs ! Suc i) \<le> snd (segs ! i)" by simp
  qed
  show "\<forall>i<length segs. 0 \<le> fst (segs ! i) \<and> snd (segs ! i) \<le> int h"
  proof (intro allI impI)
    fix i assume "i < length segs"
    then have "i < length actual + 1" by (simp add: len)
    from nth [OF this] show "0 \<le> fst (segs ! i) \<and> snd (segs ! i) \<le> int h" by simp
  qed
qed

lemma segment_ranges_union:
  assumes ov: "0 \<le> ov" and inb: "\<forall>a\<in>set actual. 0 \<le> a \<and> a \<le> int h"
  shows "(\<Union>(ys, ye)\<in>set (segment_ranges (boundaries_of actual h) (int h) ov). {ys..<ye})
           = {0..<int h}"
proof -
  let ?segs = "segment_ranges (boundaries_of actual h) (int h) ov"
  note facts = segment_ranges_facts [OF ov inb]
  have ne: "?segs \<noteq> []" using segment_ranges_length [of actual h "int h" ov] by auto
  show ?thesis
  proof (intro set_eqI iffI)
    fix y assume "y \<in> (\<Union>(ys, ye)\<in>set ?segs. {ys..<ye})"
    then obtain ys ye where mem: "(ys, ye) \<in> set ?segs" and y: "ys \<le> y" "y < ye" by auto
    from mem obtain i where "i < length ?segs" "?segs ! i = (ys, ye)"
      by (auto simp: in_set_conv_nth)
    with facts(4) have "0 \<le> ys \<and> ye \<le> int h" by fastforce
    with y show "y \<in> {0..<int h}" by simp
  next
    fix y assume "y \<in> {0..<int h}"
    then have y: "0 \<le> y" "y < int h" by simp_all
    from chain_cover [OF ne _ _ facts(3), of y] y facts(1,2)
    obtain i where i: "i < length ?segs" "fst (?segs ! i) \<le> y" "y < snd (?segs ! i)"
      by auto
    have "?segs ! i \<in> set ?segs" using i(1) by simp
    moreover have "y \<in> {fst (?segs ! i)..<snd (?segs ! i)}" using i by simp
    ultimately show "y \<in> (\<Union>(ys, ye)\<in>set ?segs. {ys..<ye})"
      by (metis (mono_tags, lifting) UN_iff case_prod_beta)
  qed
qed

subsection \<open>Targets and boundaries\<close>

lemma target_split_points_length:
  "length (target_split_points cfg n) = nat (n - 1)"
  by (simp add: target_split_points_def)

lemma target_split_points_nth:
  "k < nat (n - 1) \<Longrightarrow> target_split_points cfg n ! k = split_height cfg * (int k + 1)"
  by (simp add: target_split_points_def)

text \<open>Every target row lies inside the image, at least one segment height from the top.\<close>

lemma target_inside:
  assumes s: "0 < split_height cfg"
    and k: "k < nat (\<lceil>rat_of_nat h / rat_of_int (split_height cfg)\<rceil> - 1)"
  shows "split_height cfg * (int k + 1) < int h"
proof -
  let ?s = "split_height cfg"
  from k have "int k + 1 < \<lceil>rat_of_nat h / rat_of_int ?s\<rceil>" by linarith
  then have "rat_of_int (int k + 1) < rat_of_nat h / rat_of_int ?s"
    by (simp only: less_ceiling_iff)
  with s have "rat_of_int (int k + 1) * rat_of_int ?s < rat_of_nat h"
    by (simp add: pos_less_divide_eq)
  then have "rat_of_int ((int k + 1) * ?s) < rat_of_int (int h)" by simp
  then have "(int k + 1) * ?s < int h" by (simp only: of_int_less_iff)
  then show ?thesis by (simp add: mult.commute)
qed

lemma n_splits_ge_1:
  assumes "0 < split_height cfg" and "0 < h"
  shows "1 \<le> \<lceil>rat_of_nat h / rat_of_int (split_height cfg)\<rceil>"
proof -
  have "0 < rat_of_nat h / rat_of_int (split_height cfg)" using assms by simp
  then show ?thesis by (simp only: one_le_ceiling)
qed

text \<open>
  When the windows of consecutive targets do not meet (\<open>2 * search_range \<le> split_height\<close>),
  each actual split point lies in the window of its target, inside the image.
\<close>

lemma actual_in_window:
  assumes s: "0 < split_height cfg" and r: "0 < search_range cfg"
    and k: "k < nat (\<lceil>rat_of_nat (height img) / rat_of_int (split_height cfg)\<rceil> - 1)"
  defines "t \<equiv> split_height cfg * (int k + 1)"
  defines "a \<equiv> find_safe_split_point img t (search_range cfg)"
  shows "max 0 (t - search_range cfg) \<le> a" and "a < t + search_range cfg"
    and "a < int (height img)"
proof -
  have "t < int (height img)" unfolding t_def using s k by (rule target_inside)
  moreover have "0 < t" unfolding t_def using s by simp
  ultimately have ne: "max 0 (t - search_range cfg) < min (int (height img)) (t + search_range cfg)"
    using r by simp
  from find_safe_split_point_nonempty(1,2) [OF ne]
  show "max 0 (t - search_range cfg) \<le> a" and "a < t + search_range cfg"
    and "a < int (height img)"
    unfolding a_def by simp_all
qed

lemma actual_of_length:
  "length (actual_of cfg img)
     = nat (\<lceil>rat_of_nat (height img) / rat_of_int (split_height cfg)\<rceil> - 1)"
  by (simp add: actual_of_def actual_split_points_def target_split_points_length)

lemma actual_of_nth:
  "k < nat (\<lceil>rat_of_nat (height img) / rat_of_int (split_height cfg)\<rceil> - 1) \<Longrightarrow>
     actual_of cfg img ! k
       = find_safe_split_point img (split_height cfg * (int k + 1)) (search_range cfg)"
  by (simp add: actual_of_def actual_split_points_def target_split_points_length
      target_split_points_nth)

lemma actual_of_bounds:
  assumes s: "0 < split_height cfg" and r: "0 < search_range cfg"
  shows "\<forall>a\<in>set (actual_of cfg img). 0 \<le> a \<and> a \<le> int (height img)"
proof
  fix a assume "a \<in> set (actual_of cfg img)"
  then obtain k where k: "k < length (actual_of cfg img)" and a: "a = actual_of cfg img ! k"
    by (auto simp: in_set_conv_nth)
  from k have k': "k < nat (\<lceil>rat_of_nat (height img) / rat_of_int (split_height cfg)\<rceil> - 1)"
    by (simp add: actual_of_length)
  from actual_in_window(1,3) [OF s r k'] a actual_of_nth [OF k']
  show "0 \<le> a \<and> a \<le> int (height img)" by simp
qed

text \<open>The boundaries increase, so no crop box is upside down.\<close>

lemma boundaries_increase:
  assumes s: "0 < split_height cfg" and r: "0 < search_range cfg"
    and sep: "2 * search_range cfg \<le> split_height cfg"
    and i: "i < length (actual_of cfg img) + 1"
  shows "boundaries_of (actual_of cfg img) (height img) ! i
       \<le> boundaries_of (actual_of cfg img) (height img) ! (i + 1)"
proof -
  let ?act = "actual_of cfg img" and ?h = "height img"
  let ?bs = "boundaries_of ?act ?h"
  let ?n1 = "nat (\<lceil>rat_of_nat ?h / rat_of_int (split_height cfg)\<rceil> - 1)"
  have len: "length ?act = ?n1" by (rule actual_of_length)
  have inb: "\<forall>a\<in>set ?act. 0 \<le> a \<and> a \<le> int ?h" using s r by (rule actual_of_bounds)
  show ?thesis
  proof (cases "i = 0")
    case True
    from boundaries_of_bounds [OF inb, of 1] have "0 \<le> ?bs ! 1" by simp
    with True show ?thesis by (simp add: boundaries_of_nth(1))
  next
    case False
    then obtain k where ik: "i = k + 1" by (cases i) auto
    with i have k: "k < length ?act" by simp
    have bi: "?bs ! i = ?act ! k" using k by (simp add: ik boundaries_of_nth(3))
    show ?thesis
    proof (cases "k + 1 < length ?act")
      case True
      then have bi1: "?bs ! (i + 1) = ?act ! (k + 1)"
        by (simp add: ik boundaries_of_nth(3))
      from k True have k1: "k < ?n1" and k2: "k + 1 < ?n1" by (simp_all add: len)
      from actual_in_window(2) [OF s r k1] actual_of_nth [OF k1]
      have up: "?act ! k < split_height cfg * (int k + 1) + search_range cfg" by simp
      from actual_in_window(1) [OF s r k2] actual_of_nth [OF k2]
      have lo: "split_height cfg * (int (k + 1) + 1) - search_range cfg \<le> ?act ! (k + 1)"
        by simp
      have step: "split_height cfg * (int (k + 1) + 1)
          = split_height cfg * (int k + 1) + split_height cfg"
        by (simp add: algebra_simps)
      have "?act ! k \<le> ?act ! (k + 1)" using lo up sep unfolding step by linarith
      then show ?thesis unfolding bi bi1 .
    next
      case False
      with k have "i = length ?act" using ik by simp
      then have "?bs ! (i + 1) = int ?h" by (simp add: boundaries_of_nth(2))
      moreover have "?act ! k \<le> int ?h" using inb k by simp
      ultimately show ?thesis by (simp add: bi)
    qed
  qed
qed

lemma segment_upright:
  assumes s: "0 < split_height cfg" and r: "0 < search_range cfg"
    and sep: "2 * search_range cfg \<le> split_height cfg" and ov: "0 \<le> overlap cfg"
    and i: "i < length (actual_of cfg img) + 1"
  shows "fst (segment_range (boundaries_of (actual_of cfg img) (height img))
                (int (height img)) (overlap cfg) i)
       \<le> snd (segment_range (boundaries_of (actual_of cfg img) (height img))
                (int (height img)) (overlap cfg) i)"
proof -
  let ?bs = "boundaries_of (actual_of cfg img) (height img)"
  have inb: "\<forall>a\<in>set (actual_of cfg img). 0 \<le> a \<and> a \<le> int (height img)"
    using s r by (rule actual_of_bounds)
  from boundaries_of_bounds [OF inb, of i] boundaries_of_bounds [OF inb, of "i + 1"] i
  have "0 \<le> ?bs ! i" "?bs ! i \<le> int (height img)" "0 \<le> ?bs ! (i + 1)" by simp_all
  moreover have "?bs ! i \<le> ?bs ! (i + 1)" using s r sep i by (rule boundaries_increase)
  ultimately show ?thesis using ov by (simp add: segment_range_uniform [OF ov i])
qed

subsection \<open>A run without exception\<close>

lemma saved_parts_append: "saved_parts (xs @ ys) = saved_parts xs @ saved_parts ys"
  by (induction xs rule: saved_parts.induct) simp_all

lemma part_ranges_append: "part_ranges (xs @ ys) = part_ranges xs @ part_ranges ys"
  by (induction xs rule: part_ranges.induct) simp_all

lemma split_points_append: "split_points (xs @ ys) = split_points xs @ split_points ys"
  by (induction xs rule: split_points.induct) simp_all

lemma split_lines_projections:
  "saved_parts (map2 (split_point_line img r) ks ts) = []"
  "part_ranges (map2 (split_point_line img r) ks ts) = []"
  "length ks = length ts \<Longrightarrow>
     split_points (map2 (split_point_line img r) ks ts)
       = map (\<lambda>t. (t, find_safe_split_point img t r)) ts"
proof -
  show "saved_parts (map2 (split_point_line img r) ks ts) = []"
    by (induction ks ts rule: list_induct2') (simp_all add: split_point_line_def)
  show "part_ranges (map2 (split_point_line img r) ks ts) = []"
    by (induction ks ts rule: list_induct2') (simp_all add: split_point_line_def)
  show "length ks = length ts \<Longrightarrow>
     split_points (map2 (split_point_line img r) ks ts)
       = map (\<lambda>t. (t, find_safe_split_point img t r)) ts"
    by (induction ks ts rule: list_induct2) (simp_all add: split_point_line_def)
qed

lemma part_events_projections:
  "saved_parts (concat (map (part_events img p out bs h ov) js))
     = map (\<lambda>i. crop_box img (fst (segment_range bs h ov i)) (snd (segment_range bs h ov i))) js"
  "part_ranges (concat (map (part_events img p out bs h ov) js)) = map (segment_range bs h ov) js"
  "split_points (concat (map (part_events img p out bs h ov) js)) = []"
  by (induction js; simp add: part_events_def split: prod.splits)+

lemma split_long_image_completes:
  assumes op: "open_file en (path_str p) = Some (Decodable img)"
    and tall: "max_height cfg < int (height img)"
    and s: "0 < split_height cfg" and r: "0 < search_range cfg"
    and sep: "2 * search_range cfg \<le> split_height cfg" and ov: "0 \<le> overlap cfg"
    and mk: "mkdir_ok en out" and sv: "\<forall>q part. save_ok en q part"
  shows "split_long_image cfg en p out = (run_trace cfg img p out, None)"
proof -
  let ?h = "height img"
  let ?n = "\<lceil>rat_of_nat ?h / rat_of_int (split_height cfg)\<rceil>"
  let ?ts = "target_split_points cfg ?n"
  let ?bs = "boundaries_of (actual_of cfg img) ?h"
  have ns: "n_splits cfg ?h = Inr ?n" using s by (simp add: n_splits_def)
  have fl: "find_loop (Decodable img) (search_range cfg) 1 ?ts =
      (map2 (split_point_line img (search_range cfg)) [1..<1 + length ?ts] ?ts,
       Inr (actual_of cfg img))"
    by (simp add: find_loop_decodable actual_of_def actual_split_points_def)
  have len: "length ?bs - 1 = length (actual_of cfg img) + 1"
    by (simp add: boundaries_of_length)
  have "\<forall>i\<in>set [0..<length ?bs - 1].
      fst (segment_range ?bs (int ?h) (overlap cfg) i)
        \<le> snd (segment_range ?bs (int ?h) (overlap cfg) i)
      \<and> save_ok en (out @ ''/'' @ part_filename p i)
           (crop_box img (fst (segment_range ?bs (int ?h) (overlap cfg) i))
              (snd (segment_range ?bs (int ?h) (overlap cfg) i)))"
    using segment_upright [OF s r sep ov] sv unfolding len by simp
  from save_loop_decodable [OF this]
  have sl: "save_loop en (Decodable img) p out ?bs (int ?h) (overlap cfg) [0..<length ?bs - 1]
      = (concat (map (part_events img p out ?bs (int ?h) (overlap cfg)) [0..<length ?bs - 1]),
         None)" .
  have nle: "\<not> int ?h \<le> max_height cfg" using tall by simp
  show ?thesis
    unfolding split_long_image_def run_trace_def Let_def
    by (simp only: op option.case file_size.simps prod.case nle if_False ns sum.case fl
        mk not_True_eq_False sl append_assoc append_Cons append_Nil)
qed

lemma run_trace_projections:
  "saved_parts (run_trace cfg img p out) =
     map (\<lambda>i. crop_box img
            (fst (segment_range (boundaries_of (actual_of cfg img) (height img))
                    (int (height img)) (overlap cfg) i))
            (snd (segment_range (boundaries_of (actual_of cfg img) (height img))
                    (int (height img)) (overlap cfg) i)))
       [0..<length (actual_of cfg img) + 1]"
  "part_ranges (run_trace cfg img p out) =
     segment_ranges (boundaries_of (actual_of cfg img) (height img)) (int (height img))
       (overlap cfg)"
  "split_points (run_trace cfg img p out) =
     map (\<lambda>t. (t, find_safe_split_point img t (search_range cfg)))
       (target_split_points cfg \<lceil>rat_of_nat (height img) / rat_of_int (split_height cfg)\<rceil>)"
  by (simp_all add: run_trace_def Let_def saved_parts_append part_ranges_append
      split_points_append split_lines_projections part_events_projections
      boundaries_of_length segment_ranges_def del: upt_Suc)

subsection \<open>Coverage and count\<close>

lemma run_trace_saved_parts:
  "saved_parts (run_trace cfg img p out)
     = map (\<lambda>(y_start, y_end). crop_box img y_start y_end) (part_ranges (run_trace cfg img p out))"
  by (simp add: run_trace_projections segment_ranges_def boundaries_of_length
      case_prod_beta del: upt_Suc)

lemma default_config_simps:
  "max_height default_config = 3200" "split_height default_config = 3000"
  "search_range default_config = 100" "overlap default_config = 50"
  by (simp_all add: default_config_def MAX_HEIGHT_def SPLIT_HEIGHT_def SEARCH_RANGE_def
      OVERLAP_def)

text \<open>
  C3. An image taller than \<open>MAX_HEIGHT\<close>, split with the constants of the source in
  surroundings where the directory can be made and every part saved: the run ends without
  exception, the parts saved are the crops of the image to the ranges reported, and the
  union of the ranges \<open>[y_start, y_end)\<close> is \<open>[0, H)\<close>. The first range starts at 0, the last
  ends at \<open>H\<close>, and each range starts no later than the one before it ends.
\<close>

theorem split_long_image_covers:
  assumes op: "open_file en (path_str p) = Some (Decodable img)"
    and tall: "MAX_HEIGHT < int (height img)"
    and mk: "mkdir_ok en out" and sv: "\<forall>q part. save_ok en q part"
  shows "\<exists>tr. split_long_image default_config en p out = (tr, None)
      \<and> saved_parts tr = map (\<lambda>(y_start, y_end). crop_box img y_start y_end) (part_ranges tr)
      \<and> (\<Union>(y_start, y_end)\<in>set (part_ranges tr). {y_start..<y_end}) = {0..<int (height img)}
      \<and> part_ranges tr \<noteq> []
      \<and> fst (hd (part_ranges tr)) = 0
      \<and> snd (last (part_ranges tr)) = int (height img)
      \<and> (\<forall>i. Suc i < length (part_ranges tr) \<longrightarrow>
            fst (part_ranges tr ! Suc i) \<le> snd (part_ranges tr ! i))"
proof -
  let ?cfg = default_config
  let ?tr = "run_trace ?cfg img p out"
  let ?segs = "segment_ranges (boundaries_of (actual_of ?cfg img) (height img))
                 (int (height img)) (overlap ?cfg)"
  have s: "0 < split_height ?cfg" and r: "0 < search_range ?cfg"
    and sep: "2 * search_range ?cfg \<le> split_height ?cfg" and ov: "0 \<le> overlap ?cfg"
    by (simp_all add: default_config_simps)
  have tall': "max_height ?cfg < int (height img)"
    using tall by (simp add: default_config_def)
  have run: "split_long_image ?cfg en p out = (?tr, None)"
    using op tall' s r sep ov mk sv by (rule split_long_image_completes)
  have pr: "part_ranges ?tr = ?segs" by (rule run_trace_projections(2))
  have inb: "\<forall>a\<in>set (actual_of ?cfg img). 0 \<le> a \<and> a \<le> int (height img)"
    using s r by (rule actual_of_bounds)
  note facts = segment_ranges_facts [OF ov inb]
  have ne: "?segs \<noteq> []"
    using segment_ranges_length [of "actual_of ?cfg img" "height img" "int (height img)" "overlap ?cfg"]
    by auto
  have "saved_parts ?tr = map (\<lambda>(y_start, y_end). crop_box img y_start y_end) (part_ranges ?tr)"
    by (rule run_trace_saved_parts)
  moreover have "(\<Union>(y_start, y_end)\<in>set (part_ranges ?tr). {y_start..<y_end}) = {0..<int (height img)}"
    unfolding pr using ov inb by (rule segment_ranges_union)
  moreover have "part_ranges ?tr \<noteq> []" unfolding pr by (rule ne)
  moreover have "fst (hd (part_ranges ?tr)) = 0"
    unfolding pr using facts(1) ne by (simp add: hd_conv_nth)
  moreover have "snd (last (part_ranges ?tr)) = int (height img)"
    unfolding pr using facts(2) ne by (simp add: last_conv_nth)
  moreover have "\<forall>i. Suc i < length (part_ranges ?tr) \<longrightarrow>
            fst (part_ranges ?tr ! Suc i) \<le> snd (part_ranges ?tr ! i)"
    unfolding pr by (rule facts(3))
  ultimately show ?thesis using run by blast
qed

lemma tall_env_eval:
  "open_file tall_env (path_str shot_path) = Some (Decodable tall_image)"
  "int (height tall_image) = 3600"
  "mkdir_ok tall_env d"
  "save_ok tall_env q part"
  by (simp_all add: tall_env_def shot_path_def tall_image_def height_def)

theorem split_long_image_covers_witness:
  "\<exists>tr. split_long_image default_config tall_env shot_path ''output'' = (tr, None)
      \<and> (\<Union>(y_start, y_end)\<in>set (part_ranges tr). {y_start..<y_end}) = {0..<3600}
      \<and> fst (hd (part_ranges tr)) = 0
      \<and> snd (last (part_ranges tr)) = 3600"
  using split_long_image_covers [of tall_env shot_path tall_image "''output''"]
  by (simp add: tall_env_eval MAX_HEIGHT_def) blast

text \<open>
  C4. With \<open>n = ceil(H / split_height)\<close>, the run on an image taller than \<open>max_height\<close>
  searches exactly \<open>n - 1\<close> split points, whose targets are \<open>split_height * i\<close> for
  \<open>i = 1, ..., n - 1\<close>, each resolved by \<open>find_safe_split_point\<close> on its own target, and
  saves exactly \<open>n\<close> parts. This holds for the constants of the source, and for every
  configuration with a positive segment height and search windows that do not meet
  (\<open>0 < search_range\<close>, \<open>2 * search_range \<le> split_height\<close>, \<open>0 \<le> overlap\<close>).
\<close>

theorem split_long_image_count:
  fixes cfg :: config and img :: image
  defines "n \<equiv> \<lceil>rat_of_nat (height img) / rat_of_int (split_height cfg)\<rceil>"
  assumes op: "open_file en (path_str p) = Some (Decodable img)"
    and tall: "max_height cfg < int (height img)" and pos: "0 < height img"
    and s: "0 < split_height cfg" and r: "0 < search_range cfg"
    and sep: "2 * search_range cfg \<le> split_height cfg" and ov: "0 \<le> overlap cfg"
    and mk: "mkdir_ok en out" and sv: "\<forall>q part. save_ok en q part"
  shows "\<exists>tr. split_long_image cfg en p out = (tr, None)
      \<and> int (length (saved_parts tr)) = n
      \<and> int (length (part_ranges tr)) = n
      \<and> int (length (split_points tr)) = n - 1
      \<and> map fst (split_points tr) = map (\<lambda>i. split_height cfg * i) [1..n - 1]
      \<and> map snd (split_points tr)
          = map (\<lambda>i. find_safe_split_point img (split_height cfg * i) (search_range cfg))
              [1..n - 1]"
proof -
  let ?tr = "run_trace cfg img p out"
  have run: "split_long_image cfg en p out = (?tr, None)"
    using op tall s r sep ov mk sv by (rule split_long_image_completes)
  have n1: "1 \<le> n" unfolding n_def using s pos by (rule n_splits_ge_1)
  have len: "length (actual_of cfg img) = nat (n - 1)"
    unfolding n_def by (rule actual_of_length)
  have "int (length (saved_parts ?tr)) = n"
    using n1 by (simp add: run_trace_projections(1) len)
  moreover have "int (length (part_ranges ?tr)) = n"
    using n1 by (simp add: run_trace_projections(2) segment_ranges_length len)
  moreover have sp: "split_points ?tr
      = map (\<lambda>t. (t, find_safe_split_point img t (search_range cfg))) (target_split_points cfg n)"
    unfolding n_def by (rule run_trace_projections(3))
  moreover have "int (length (split_points ?tr)) = n - 1"
    using n1 by (simp add: sp target_split_points_length)
  moreover have "map fst (split_points ?tr) = map (\<lambda>i. split_height cfg * i) [1..n - 1]"
    by (simp add: sp target_split_points_def comp_def)
  moreover have "map snd (split_points ?tr)
          = map (\<lambda>i. find_safe_split_point img (split_height cfg * i) (search_range cfg))
              [1..n - 1]"
    by (simp add: sp target_split_points_def comp_def)
  ultimately show ?thesis using run by blast
qed

theorem split_long_image_count_witness:
  "\<exists>tr. split_long_image default_config tall_env shot_path ''output'' = (tr, None)
      \<and> length (saved_parts tr) = 2
      \<and> length (part_ranges tr) = 2
      \<and> map fst (split_points tr) = [3000]
      \<and> map snd (split_points tr) = [find_safe_split_point tall_image 3000 100]"
proof -
  have n: "\<lceil>rat_of_nat (height tall_image) / rat_of_int (split_height default_config)\<rceil> = 2"
  proof -
    have "\<lceil>(6 / 5 :: rat)\<rceil> = 2" by (rule ceiling_unique) simp_all
    then show ?thesis by (simp add: tall_image_def height_def default_config_simps)
  qed
  from split_long_image_count [of tall_env shot_path tall_image default_config "''output''"]
  show ?thesis
    unfolding n
    by (auto simp add: tall_env_eval default_config_simps upto.simps tall_image_def
        height_def)
qed

subsection \<open>The run that does not split\<close>

lemma save_loop_saved_count:
  "save_loop en f p out bs h ov js = (tr, None) \<Longrightarrow> length (saved_parts tr) = length js"
proof (induction js arbitrary: tr)
  case Nil
  then show ?case by simp
next
  case (Cons i js)
  then show ?case
    by (auto split: prod.splits sum.splits if_splits option.splits simp: Let_def)
qed

lemma save_loop_no_split_points:
  "save_loop en f p out bs h ov js = (tr, r) \<Longrightarrow> split_points tr = []"
proof (induction js arbitrary: tr r)
  case Nil
  then show ?case by simp
next
  case (Cons i js)
  then show ?case
    by (auto split: prod.splits sum.splits if_splits option.splits simp: Let_def)
qed

lemma find_loop_length:
  "find_loop f r i ts = (tr, Inr actual) \<Longrightarrow> length actual = length ts"
proof (induction ts arbitrary: i tr actual)
  case Nil
  then show ?case by simp
next
  case (Cons t ts)
  then show ?case by (auto split: prod.splits sum.splits)
qed

text \<open>The shape of a run on an image taller than \<open>max_height\<close> that ends without exception.\<close>

lemma split_run_shape:
  assumes op: "open_file en (path_str p) = Some f" and sz: "file_size f = (w, h)"
    and tall: "max_height cfg < int h"
    and run: "split_long_image cfg en p out = (tr, None)"
  shows "\<exists>n tr1 actual tr2.
      n_splits cfg h = Inr n
      \<and> find_loop f (search_range cfg) 1 (target_split_points cfg n) = (tr1, Inr actual)
      \<and> mkdir_ok en out
      \<and> save_loop en f p out (boundaries_of actual h) (int h) (overlap cfg)
            [0..<length actual + 1] = (tr2, None)
      \<and> tr = [Print (Loading (path_str p)), Print (ImageSize w h), Print (TooLong n),
               Print FindingSplitPoints] @ tr1
              @ [Mkdir out, Print (SplittingAndSaving out)] @ tr2
              @ [Print (Done (length actual + 1))]"
  using run tall
  by (auto split: sum.splits prod.splits option.splits if_splits
      simp: split_long_image_def op sz Let_def boundaries_of_length simp del: upt_Suc)

text \<open>
  C7. On an image no taller than \<open>max_height\<close> the run prints its three lines and
  returns: it reports no split point and no part, makes no directory and saves no file.
  The function returns \<open>None\<close> on both of its ways out; what tells this run from one
  that split is what was printed and written: every run on a taller image that ends
  without exception has made the output directory, saved at least one part and ended
  with the line that counts the parts.
\<close>

theorem split_long_image_no_op:
  assumes op: "open_file en (path_str p) = Some f" and sz: "file_size f = (w, h)"
    and short: "int h \<le> max_height cfg"
  defines "quiet \<equiv> [Print (Loading (path_str p)), Print (ImageSize w h),
                      Print (NoNeedToSplit h (max_height cfg))]"
  shows "split_long_image cfg en p out = (quiet, None)
     \<and> split_points quiet = [] \<and> part_ranges quiet = [] \<and> saved_parts quiet = []
     \<and> filter is_output quiet = []
     \<and> (\<forall>cfg' en' p' out' f' w' h' tr'.
           open_file en' (path_str p') = Some f' \<and> file_size f' = (w', h')
           \<and> max_height cfg' < int h'
           \<and> split_long_image cfg' en' p' out' = (tr', None)
           \<longrightarrow> tr' \<noteq> quiet \<and> Mkdir out' \<in> set tr' \<and> saved_parts tr' \<noteq> []
               \<and> last tr' = Print (Done (length (saved_parts tr'))))"
proof -
  have run: "split_long_image cfg en p out = (quiet, None)"
    using short by (simp add: split_long_image_def quiet_def op sz)
  have quiet: "split_points quiet = []" "part_ranges quiet = []" "saved_parts quiet = []"
    "filter is_output quiet = []"
    by (simp_all add: quiet_def)
  have other: "tr' \<noteq> quiet \<and> Mkdir out' \<in> set tr' \<and> saved_parts tr' \<noteq> []
               \<and> last tr' = Print (Done (length (saved_parts tr')))"
    if op': "open_file en' (path_str p') = Some f'" and sz': "file_size f' = (w', h')"
      and tall': "max_height cfg' < int h'"
      and run': "split_long_image cfg' en' p' out' = (tr', None)"
    for cfg' en' p' out' f' w' h' tr'
  proof -
    from split_run_shape [OF op' sz' tall' run'] obtain n tr1 actual tr2 where
      fl: "find_loop f' (search_range cfg') 1 (target_split_points cfg' n) = (tr1, Inr actual)"
      and sl: "save_loop en' f' p' out' (boundaries_of actual h') (int h') (overlap cfg')
            [0..<length actual + 1] = (tr2, None)"
      and tr': "tr' = [Print (Loading (path_str p')), Print (ImageSize w' h'), Print (TooLong n),
               Print FindingSplitPoints] @ tr1
              @ [Mkdir out', Print (SplittingAndSaving out')] @ tr2
              @ [Print (Done (length actual + 1))]"
      by blast
    have mk: "Mkdir out' \<in> set tr'" unfolding tr' by simp
    have s1: "saved_parts tr1 = []"
      using find_loop_no_output [OF fl] 
      by (induction tr1 rule: saved_parts.induct) simp_all
    have cnt: "length (saved_parts tr2) = length actual + 1"
      using save_loop_saved_count [OF sl] by simp
    have sp: "saved_parts tr' = saved_parts tr2"
      unfolding tr' by (simp add: saved_parts_append s1)
    have "tr' \<noteq> quiet"
    proof
      assume "tr' = quiet"
      with mk have "Mkdir out' \<in> set quiet" by simp
      then show False by (simp add: quiet_def)
    qed
    moreover have "saved_parts tr' \<noteq> []" using cnt sp by auto
    moreover have "last tr' = Print (Done (length (saved_parts tr')))"
      unfolding sp cnt unfolding tr' by simp
    ultimately show ?thesis using mk by blast
  qed
  from run quiet other show ?thesis by blast
qed

lemma tall_run:
  "split_long_image default_config tall_env shot_path ''output''
     = (run_trace default_config tall_image shot_path ''output'', None)"
  by (rule split_long_image_completes)
     (simp_all add: tall_env_eval default_config_simps)

theorem split_long_image_no_op_witness:
  "split_long_image default_config short_env shot_path ''output''
     = ([Print (Loading ''shot.png''), Print (ImageSize 2 3), Print (NoNeedToSplit 3 3200)], None)
   \<and> Mkdir ''output'' \<in> set (run_trace default_config tall_image shot_path ''output'')
   \<and> run_trace default_config tall_image shot_path ''output''
       \<noteq> [Print (Loading ''shot.png''), Print (ImageSize 2 3), Print (NoNeedToSplit 3 3200)]"
proof -
  have op: "open_file short_env (path_str shot_path) = Some (Decodable three_rows)"
    and sz: "file_size (Decodable three_rows) = (2, 3)"
    and short: "int 3 \<le> max_height default_config"
    by (simp_all add: short_env_def shot_path_def three_rows_def height_def
        default_config_simps)
  have op': "open_file tall_env (path_str shot_path) = Some (Decodable tall_image)"
    and sz': "file_size (Decodable tall_image) = (1, 3600)"
    and tall': "max_height default_config < int 3600"
    by (simp_all add: tall_env_eval default_config_simps tall_image_def height_def)
  let ?quiet = "[Print (Loading (path_str shot_path)), Print (ImageSize 2 3),
                 Print (NoNeedToSplit 3 (max_height default_config))]"
  from split_long_image_no_op [OF op sz short, of "''output''"]
  have a: "split_long_image default_config short_env shot_path ''output'' = (?quiet, None)"
    and b: "\<forall>cfg' en' p' out' f' w' h' tr'.
           open_file en' (path_str p') = Some f' \<and> file_size f' = (w', h')
           \<and> max_height cfg' < int h'
           \<and> split_long_image cfg' en' p' out' = (tr', None)
           \<longrightarrow> tr' \<noteq> ?quiet \<and> Mkdir out' \<in> set tr' \<and> saved_parts tr' \<noteq> []
               \<and> last tr' = Print (Done (length (saved_parts tr')))"
    by blast+
  from b op' sz' tall' tall_run
  have "run_trace default_config tall_image shot_path ''output'' \<noteq> ?quiet
      \<and> Mkdir ''output'' \<in> set (run_trace default_config tall_image shot_path ''output'')"
    by blast
  with a show ?thesis by (simp add: shot_path_def default_config_simps)
qed

end
